theory Spec2Isabelle
  imports Main
begin

section \<open>The container of \<^verbatim>\<open>hash_map_2.h\<close>\<close>

text \<open>
  \<^verbatim>\<open>HashMap<KeyType, ValueType, Hash>\<close> keeps two tables: \<^verbatim>\<open>value_store_\<close>, the vector
  of the (key, value) pairs, and \<^verbatim>\<open>hashed_pointers_\<close>, a vector of buckets, each a vector
  of positions of \<^verbatim>\<open>value_store_\<close>. The third member is the hash functor \<^verbatim>\<open>hasher_\<close>.
  The members keep their names, without the trailing underscore. The repository holds the
  class three times: \<^verbatim>\<open>hash_map_2version.h\<close> differs from \<^verbatim>\<open>hash_map_2.h\<close> in its comments
  only, and \<^verbatim>\<open>hashtbl.h\<close> is the earlier version, with the literals 3 and 2 for the two
  constants and \<^verbatim>\<open>reallocate\<close> for \<^verbatim>\<open>check_and_reallocate\<close>; the member functions
  modelled here have the same bodies in all three.

  Integers. Positions, sizes and hash values are \<^verbatim>\<open>size_t\<close> in the source and natural
  numbers here. The elements of a vector occupy at most \<^verbatim>\<open>PTRDIFF_MAX\<close> bytes, at least
  two bytes per pair and more per bucket, so that neither \<^verbatim>\<open>3 * size\<close> nor
  \<^verbatim>\<open>2 * bucket_count\<close> wraps. The one narrower variable is the temporary
  \<^verbatim>\<open>int cur_position\<close> of \<^verbatim>\<open>check_and_reallocate\<close>. The model takes the data model of the
  64-bit platforms, a 32-bit \<^verbatim>\<open>int\<close> and a 64-bit \<^verbatim>\<open>size_t\<close>: \<open>int_of_size_t\<close> is the
  conversion of the initialisation and \<open>size_t_of_int\<close> the conversion back where
  \<^verbatim>\<open>cur_position\<close> indexes the vector.

  Unchecked accesses. \<^verbatim>\<open>operator[]\<close> and \<^verbatim>\<open>back()\<close> of \<^verbatim>\<open>std::vector\<close> are unchecked;
  the model reads with \<open>!\<close> and \<open>last\<close>. The invariant \<open>invar\<close> below keeps every
  stored position below the size and the bucket count positive, and every theorem
  about a lookup assumes it, so that no read of the model is out of range. The one
  access that the invariant does not cover is \<^verbatim>\<open>hashed_pointers_[cur_position]\<close> in the
  rehash: \<open>rehash_in_range\<close> says that every index of a rehash is inside the new array.
  Beyond the array the source has no defined behaviour, and the list update of the model
  leaves the array as it is.

  Iterators. An iterator is the pair of a position and the address of the container;
  all iterators compared by the operations below belong to the same container, so the
  model keeps the position only.
\<close>

record ('k, 'v) HashMap =
  value_store :: "('k \<times> 'v) list"
  hashed_pointers :: "nat list list"
  hasher :: "'k \<Rightarrow> nat"

definition INCREMENT_FACTOR :: nat where
  "INCREMENT_FACTOR = 2"

definition REALLOCATION_FACTOR :: nat where
  "REALLOCATION_FACTOR = 3"

text \<open>\<^verbatim>\<open>size()\<close>, \<^verbatim>\<open>empty()\<close>, \<^verbatim>\<open>begin()\<close>, \<^verbatim>\<open>end()\<close>; \<open>bucket_count\<close> is
  \<^verbatim>\<open>hashed_pointers_.size()\<close>.\<close>

definition size_hm :: "('k, 'v) HashMap \<Rightarrow> nat" where
  "size_hm s = length (value_store s)"

definition empty_hm :: "('k, 'v) HashMap \<Rightarrow> bool" where
  "empty_hm s = (length (value_store s) = 0)"

definition begin_hm :: "('k, 'v) HashMap \<Rightarrow> nat" where
  "begin_hm s = 0"

definition end_hm :: "('k, 'v) HashMap \<Rightarrow> nat" where
  "end_hm s = length (value_store s)"

definition bucket_count :: "('k, 'v) HashMap \<Rightarrow> nat" where
  "bucket_count s = length (hashed_pointers s)"

subsection \<open>Lookup\<close>

text \<open>The loop of \<^verbatim>\<open>find\<close> over one bucket: the first position whose key is equal.\<close>

fun find_loop :: "('k \<times> 'v) list \<Rightarrow> 'k \<Rightarrow> nat list \<Rightarrow> nat option" where
  "find_loop vs key [] = None"
| "find_loop vs key (x # xs) =
     (if fst (vs ! x) = key then Some x else find_loop vs key xs)"

definition find_hm :: "('k, 'v) HashMap \<Rightarrow> 'k \<Rightarrow> nat" where
  "find_hm s key =
     (let current_hash = hasher s key mod length (hashed_pointers s)
      in case find_loop (value_store s) key (hashed_pointers s ! current_hash) of
           Some x \<Rightarrow> x
         | None \<Rightarrow> length (value_store s))"

subsection \<open>Growing\<close>

text \<open>The conversion of a \<^verbatim>\<open>size_t\<close> value to \<^verbatim>\<open>int\<close>: the value modulo \<open>2 ^ 32\<close>, read
  as two's complement (what C++20 prescribes and the compilers before it do). The
  conversion of an \<^verbatim>\<open>int\<close> to \<^verbatim>\<open>size_t\<close>: the value modulo \<open>2 ^ 64\<close>.\<close>

definition int_of_size_t :: "nat \<Rightarrow> int" where
  "int_of_size_t v =
     (let m = int v mod 4294967296 in if m < 2147483648 then m else m - 4294967296)"

definition size_t_of_int :: "int \<Rightarrow> nat" where
  "size_t_of_int i = nat (i mod 18446744073709551616)"

text \<open>The loop of \<^verbatim>\<open>check_and_reallocate\<close>: \<^verbatim>\<open>int cur_position\<close> receives
  \<^verbatim>\<open>hasher_(value_store_[i].first) % new_size\<close>, and position \<open>i\<close> is pushed to the back of
  \<^verbatim>\<open>hashed_pointers_[cur_position]\<close>, for \<open>i\<close> from 0 to the size.\<close>

fun rehash_loop ::
  "('k \<Rightarrow> nat) \<Rightarrow> ('k \<times> 'v) list \<Rightarrow> nat \<Rightarrow> nat list \<Rightarrow> nat list list \<Rightarrow> nat list list" where
  "rehash_loop h vs new_size [] hp = hp"
| "rehash_loop h vs new_size (i # is) hp =
     (let cur_position = int_of_size_t (h (fst (vs ! i)) mod new_size);
          b = size_t_of_int cur_position
      in rehash_loop h vs new_size is (hp[b := hp ! b @ [i]]))"

text \<open>Every index of a rehash of \<open>vs\<close> into \<open>new_size\<close> buckets is inside the new array.\<close>

definition rehash_in_range :: "('k \<Rightarrow> nat) \<Rightarrow> ('k \<times> 'v) list \<Rightarrow> nat \<Rightarrow> bool" where
  "rehash_in_range h vs new_size =
     list_all (\<lambda>i. size_t_of_int (int_of_size_t (h (fst (vs ! i)) mod new_size)) < new_size)
       [0 ..< length vs]"

definition check_and_reallocate :: "('k, 'v) HashMap \<Rightarrow> ('k, 'v) HashMap" where
  "check_and_reallocate s =
     (if REALLOCATION_FACTOR * length (value_store s)
           \<ge> length (hashed_pointers s) * INCREMENT_FACTOR
      then let new_size = length (hashed_pointers s) * INCREMENT_FACTOR
           in s\<lparr>hashed_pointers :=
                  rehash_loop (hasher s) (value_store s) new_size
                    [0 ..< length (value_store s)] (replicate new_size [])\<rparr>
      else s)"

definition insert_hm :: "('k, 'v) HashMap \<Rightarrow> 'k \<times> 'v \<Rightarrow> ('k, 'v) HashMap" where
  "insert_hm s key_value =
     (if find_hm s (fst key_value) = end_hm s
      then let vs = value_store s @ [key_value];
               current_hash = hasher s (fst key_value);
               b = current_hash mod length (hashed_pointers s);
               hp = (hashed_pointers s)[b := hashed_pointers s ! b @ [length vs - 1]]
           in check_and_reallocate (s\<lparr>value_store := vs, hashed_pointers := hp\<rparr>)
      else s)"

subsection \<open>Erasing\<close>

text \<open>The first loop of \<^verbatim>\<open>erase\<close>: the first element equal to \<open>index0\<close> is swapped with
  the back of the bucket, the back is popped, and the loop ends.\<close>

fun swap_pop :: "nat \<Rightarrow> nat list \<Rightarrow> nat list" where
  "swap_pop index0 [] = []"
| "swap_pop index0 (x # xs) =
     (if x = index0 then (if xs = [] then [] else last xs # butlast xs)
      else x # swap_pop index0 xs)"

text \<open>The second loop: the first element equal to \<open>index1\<close> becomes \<open>index0\<close>.\<close>

fun repoint :: "nat \<Rightarrow> nat \<Rightarrow> nat list \<Rightarrow> nat list" where
  "repoint index1 index0 [] = []"
| "repoint index1 index0 (x # xs) =
     (if x = index1 then index0 # xs else x # repoint index1 index0 xs)"

definition erase :: "('k, 'v) HashMap \<Rightarrow> 'k \<Rightarrow> ('k, 'v) HashMap" where
  "erase s key =
     (if find_hm s key = end_hm s then s
      else let curiter = find_hm s key;
               vs = value_store s;
               hp = hashed_pointers s;
               hash0 = hasher s key mod length hp;
               hash1 = hasher s (fst (last vs)) mod length hp;
               index0 = curiter;
               index1 = length vs - 1;
               vs' = butlast (vs[index0 := last vs, index1 := vs ! index0]);
               hp' = hp[hash0 := swap_pop index0 (hp ! hash0)];
               hp'' = hp'[hash1 := repoint index1 index0 (hp' ! hash1)]
           in s\<lparr>value_store := vs', hashed_pointers := hp''\<rparr>)"

subsection \<open>Access by key, clearing, construction\<close>

text \<open>\<^verbatim>\<open>at\<close> throws \<^verbatim>\<open>std::out_of_range\<close>, the only \<^verbatim>\<open>throw\<close> of the class.\<close>

datatype error = Out_of_range

definition at :: "('k, 'v) HashMap \<Rightarrow> 'k \<Rightarrow> error + 'v" where
  "at s key =
     (if find_hm s key = end_hm s then Inl Out_of_range
      else Inr (snd (value_store s ! find_hm s key)))"

text \<open>\<^verbatim>\<open>operator[]\<close> returns a reference to the \<^verbatim>\<open>second\<close> of a stored pair: the model
  returns the position of that pair and the new state. \<open>init\<close> is \<^verbatim>\<open>ValueType()\<close>.\<close>

definition subscript :: "('k, 'v) HashMap \<Rightarrow> 'v \<Rightarrow> 'k \<Rightarrow> nat \<times> ('k, 'v) HashMap" where
  "subscript s init key =
     (if find_hm s key = end_hm s
      then let s' = insert_hm s (key, init) in (find_hm s' key, s')
      else (find_hm s key, s))"

definition clear :: "('k, 'v) HashMap \<Rightarrow> ('k, 'v) HashMap" where
  "clear s = s\<lparr>value_store := [], hashed_pointers := [[]]\<rparr>"

definition HashMap_default :: "('k \<Rightarrow> nat) \<Rightarrow> ('k, 'v) HashMap" where
  "HashMap_default h = \<lparr>value_store = [], hashed_pointers = [[]], hasher = h\<rparr>"

text \<open>The constructors from an iterator range and from an initializer list insert the
  elements in order.\<close>

definition HashMap_range :: "('k \<times> 'v) list \<Rightarrow> ('k \<Rightarrow> nat) \<Rightarrow> ('k, 'v) HashMap" where
  "HashMap_range elems h = fold (\<lambda>elem s. insert_hm s elem) elems (HashMap_default h)"

definition HashMap_init_list :: "('k \<times> 'v) list \<Rightarrow> ('k \<Rightarrow> nat) \<Rightarrow> ('k, 'v) HashMap" where
  "HashMap_init_list init_list h =
     fold (\<lambda>elem s. insert_hm s elem) init_list (HashMap_default h)"


text \<open>A write through a reference or an iterator (\<^verbatim>\<open>map[key] = v\<close>,
  \<^verbatim>\<open>it->second = v\<close>): the key of the pair is \<^verbatim>\<open>const\<close>, the value is replaced.\<close>

definition assign :: "('k, 'v) HashMap \<Rightarrow> nat \<Rightarrow> 'v \<Rightarrow> ('k, 'v) HashMap" where
  "assign s p v = s\<lparr>value_store := (value_store s)[p := (fst (value_store s ! p), v)]\<rparr>"

subsection \<open>The public interface as one step function\<close>

text \<open>Every public member function of the class, with what it returns and the state it
  leaves. A \<^verbatim>\<open>throw\<close> is \<open>Inl\<close>; the container exists after it, in the state the
  \<^verbatim>\<open>const\<close> member \<^verbatim>\<open>at\<close> found it in.\<close>

datatype ('k, 'v) call =
    Size | Empty | Hash_function | Begin | End | Find 'k
  | Erase 'k | Insert "'k \<times> 'v" | At 'k | Subscript 'k | Clear

datatype ('k, 'v) reply =
    Void | Count nat | Flag bool | Hasher "'k \<Rightarrow> nat" | Iterator nat | Value 'v | Reference nat

fun run ::
  "'v \<Rightarrow> ('k, 'v) call \<Rightarrow> ('k, 'v) HashMap \<Rightarrow> (error + ('k, 'v) reply) \<times> ('k, 'v) HashMap" where
  "run init Size s = (Inr (Count (size_hm s)), s)"
| "run init Empty s = (Inr (Flag (empty_hm s)), s)"
| "run init Hash_function s = (Inr (Hasher (hasher s)), s)"
| "run init Begin s = (Inr (Iterator (begin_hm s)), s)"
| "run init End s = (Inr (Iterator (end_hm s)), s)"
| "run init (Find key) s = (Inr (Iterator (find_hm s key)), s)"
| "run init (Erase key) s = (Inr Void, erase s key)"
| "run init (Insert key_value) s = (Inr Void, insert_hm s key_value)"
| "run init (At key) s =
     (case at s key of Inl e \<Rightarrow> (Inl e, s) | Inr v \<Rightarrow> (Inr (Value v), s))"
| "run init (Subscript key) s =
     (case subscript s init key of (p, s') \<Rightarrow> (Inr (Reference p), s'))"
| "run init Clear s = (Inr Void, clear s)"

text \<open>The states a program can reach: a constructor, then public calls and writes
  through references to stored values.\<close>

inductive reachable :: "('k, 'v) HashMap \<Rightarrow> bool" where
  by_default: "reachable (HashMap_default h)"
| by_range: "reachable (HashMap_range elems h)"
| by_init_list: "reachable (HashMap_init_list elems h)"
| by_call: "reachable s \<Longrightarrow> run init c s = (r, s') \<Longrightarrow> reachable s'"
| by_write: "reachable s \<Longrightarrow> p < size_hm s \<Longrightarrow> reachable (assign s p v)"

subsection \<open>Invariants\<close>

text \<open>The representation invariant: there is a bucket, no two stored pairs have the same
  key, and bucket \<open>b\<close> lists, without repetition, exactly the positions whose key hashes
  to \<open>b\<close> under the current bucket count.\<close>

definition invar :: "('k, 'v) HashMap \<Rightarrow> bool" where
  "invar s \<longleftrightarrow>
     0 < length (hashed_pointers s) \<and>
     distinct (map fst (value_store s)) \<and>
     (\<forall>b \<in> {0 ..< length (hashed_pointers s)}.
        distinct (hashed_pointers s ! b) \<and>
        set (hashed_pointers s ! b) =
          set (filter (\<lambda>p. hasher s (fst (value_store s ! p)) mod length (hashed_pointers s) = b)
                 [0 ..< length (value_store s)]))"

text \<open>The bucket-index property as the specification words it: a live position occurs
  once in the bucket of its key's hash and in no other bucket.\<close>

definition bucket_index_ok :: "('k, 'v) HashMap \<Rightarrow> bool" where
  "bucket_index_ok s \<longleftrightarrow>
     (\<forall>p \<in> {0 ..< size_hm s}. \<forall>b \<in> {0 ..< bucket_count s}.
        count_list (hashed_pointers s ! b) p =
          (if b = hasher s (fst (value_store s ! p)) mod bucket_count s then 1 else 0))"

definition load_ok :: "('k, 'v) HashMap \<Rightarrow> bool" where
  "load_ok s \<longleftrightarrow> 3 * size_hm s < 2 * bucket_count s"

text \<open>The first three statements of a successful \<^verbatim>\<open>insert\<close>, before
  \<^verbatim>\<open>check_and_reallocate\<close>.\<close>

definition push :: "('k, 'v) HashMap \<Rightarrow> 'k \<times> 'v \<Rightarrow> ('k, 'v) HashMap" where
  "push s kv =
     s\<lparr>value_store := value_store s @ [kv],
       hashed_pointers :=
         (hashed_pointers s)[hasher s (fst kv) mod length (hashed_pointers s) :=
            hashed_pointers s ! (hasher s (fst kv) mod length (hashed_pointers s))
              @ [length (value_store s)]]\<rparr>"

subsection \<open>Example containers\<close>

definition abc :: "(nat, string) HashMap" where
  "abc = HashMap_init_list [(1, ''a''), (2, ''b''), (3, ''c'')] (\<lambda>k. k)"

definition collide :: "(nat, string) HashMap" where
  "collide = HashMap_range [(0, ''x''), (8, ''y''), (16, ''z''), (8, ''w'')] (\<lambda>k. k)"

text \<open>A container at the limit of \<^verbatim>\<open>int\<close>: \<open>build n\<close> is constructed from \<open>n\<close> pairs with
  distinct keys under the identity hash (\<^verbatim>\<open>std::hash<size_t>\<close> of the common libraries).
  The keys are \<open>0, 1, 2, \<dots>\<close> up to \<open>2 ^ 31 - 1\<close> and from then on \<open>2 ^ 32, 2 ^ 32 + 1, \<dots>\<close>,
  so that bit 31 of every key is clear. \<open>big\<close> has 2863311530 pairs.\<close>

definition spread_key :: "nat \<Rightarrow> nat" where
  "spread_key i = (if i < 2147483648 then i else i + 2147483648)"

definition build :: "nat \<Rightarrow> (nat, nat) HashMap" where
  "build n = HashMap_range (map (\<lambda>i. (spread_key i, 0)) [0 ..< n]) (\<lambda>k. k)"

definition big :: "(nat, nat) HashMap" where
  "big = build 2863311530"

definition five :: "(nat, string) HashMap" where
  "five = HashMap_range [(1, ''a''), (2, ''b''), (3, ''c''), (4, ''d''), (5, ''e'')] (\<lambda>k. k)"

section \<open>Lookup under the invariant\<close>

lemma invarI:
  assumes "0 < length (hashed_pointers s)" "distinct (map fst (value_store s))"
    "\<And>b. b < length (hashed_pointers s) \<Longrightarrow> distinct (hashed_pointers s ! b)"
    "\<And>b. b < length (hashed_pointers s) \<Longrightarrow>
       set (hashed_pointers s ! b) =
       {p. p < length (value_store s) \<and>
           hasher s (fst (value_store s ! p)) mod length (hashed_pointers s) = b}"
  shows "invar s"
  using assms by (auto simp: invar_def)

lemma invar_buckets: "invar s \<Longrightarrow> 0 < length (hashed_pointers s)"
  by (simp add: invar_def)

lemma invar_keys: "invar s \<Longrightarrow> distinct (map fst (value_store s))"
  by (simp add: invar_def)

lemma invar_distinct: "invar s \<Longrightarrow> b < length (hashed_pointers s) \<Longrightarrow> distinct (hashed_pointers s ! b)"
  by (simp add: invar_def)

lemma invar_set:
  "invar s \<Longrightarrow> b < length (hashed_pointers s) \<Longrightarrow>
   set (hashed_pointers s ! b) =
     {p. p < length (value_store s) \<and>
         hasher s (fst (value_store s ! p)) mod length (hashed_pointers s) = b}"
  by (auto simp: invar_def)

text \<open>Under the invariant every position stored in a bucket is live, so that the reads
  \<^verbatim>\<open>value_store_[x]\<close> of \<^verbatim>\<open>find\<close> are in range.\<close>

lemma invar_in_range:
  "invar s \<Longrightarrow> b < length (hashed_pointers s) \<Longrightarrow> x \<in> set (hashed_pointers s ! b) \<Longrightarrow>
   x < length (value_store s)"
  by (simp add: invar_set)

lemma find_loop_Some: "find_loop vs k b = Some x \<Longrightarrow> x \<in> set b \<and> fst (vs ! x) = k"
  by (induction b) (auto split: if_splits)

lemma find_loop_None: "find_loop vs k b = None \<longleftrightarrow> (\<forall>x \<in> set b. fst (vs ! x) \<noteq> k)"
  by (induction b) auto

lemma keys_nth_eq:
  "distinct (map fst vs) \<Longrightarrow> p < length vs \<Longrightarrow> q < length vs \<Longrightarrow> fst (vs ! p) = fst (vs ! q) \<Longrightarrow> p = q"
  by (metis distinct_conv_nth length_map nth_map)

lemma find_hm_present:
  assumes "invar s" "p < length (value_store s)" "fst (value_store s ! p) = k"
  shows "find_hm s k = p"
proof -
  let ?n = "length (hashed_pointers s)"
  let ?b = "hasher s k mod ?n"
  have n: "0 < ?n" using assms(1) by (rule invar_buckets)
  then have b: "?b < ?n" by simp
  have pin: "p \<in> set (hashed_pointers s ! ?b)"
    using invar_set [OF assms(1) b] assms(2,3) by simp
  then have "find_loop (value_store s) k (hashed_pointers s ! ?b) \<noteq> None"
    using assms(3) by (auto simp: find_loop_None)
  then obtain x where x: "find_loop (value_store s) k (hashed_pointers s ! ?b) = Some x"
    by auto
  from find_loop_Some [OF x] have "x \<in> set (hashed_pointers s ! ?b)" "fst (value_store s ! x) = k"
    by simp_all
  then have "x < length (value_store s)" using invar_set [OF assms(1) b] by simp
  then have "x = p"
    using keys_nth_eq [OF invar_keys [OF assms(1)], of x p] assms(2,3) \<open>fst (value_store s ! x) = k\<close>
    by simp
  then show ?thesis using x by (simp add: find_hm_def)
qed

lemma find_hm_absent:
  assumes "invar s" "k \<notin> fst ` set (value_store s)"
  shows "find_hm s k = length (value_store s)"
proof -
  let ?n = "length (hashed_pointers s)"
  let ?b = "hasher s k mod ?n"
  have n: "0 < ?n" using assms(1) by (rule invar_buckets)
  then have b: "?b < ?n" by simp
  have "\<forall>x \<in> set (hashed_pointers s ! ?b). fst (value_store s ! x) \<noteq> k"
  proof
    fix x assume "x \<in> set (hashed_pointers s ! ?b)"
    then have "x < length (value_store s)" using invar_set [OF assms(1) b] by simp
    then have "value_store s ! x \<in> set (value_store s)" by simp
    then show "fst (value_store s ! x) \<noteq> k" using assms(2) by force
  qed
  then have "find_loop (value_store s) k (hashed_pointers s ! ?b) = None"
    by (simp add: find_loop_None)
  then show ?thesis by (simp add: find_hm_def)
qed

lemma find_hm_cases:
  assumes "invar s"
  shows "(k \<notin> fst ` set (value_store s) \<and> find_hm s k = length (value_store s)) \<or>
         (find_hm s k < length (value_store s) \<and> fst (value_store s ! find_hm s k) = k)"
proof (cases "k \<in> fst ` set (value_store s)")
  case True
  then obtain p where "p < length (value_store s)" "fst (value_store s ! p) = k"
    by (auto simp: in_set_conv_nth)
  then show ?thesis using find_hm_present [OF assms] by auto
next
  case False
  then show ?thesis using find_hm_absent [OF assms] by simp
qed

lemma length_rehash_loop: "length (rehash_loop h vs n is hp) = length hp"
  by (induction "is" arbitrary: hp) (simp_all add: Let_def)

lemma int_mod_nat: "int v mod 4294967296 = int (v mod 4294967296)"
  using zmod_int [of v 4294967296] by simp

lemma int_round_trip_low:
  "v mod 4294967296 < 2147483648 \<Longrightarrow> size_t_of_int (int_of_size_t v) = v mod 4294967296"
  unfolding int_of_size_t_def size_t_of_int_def Let_def int_mod_nat by simp

lemma int_round_trip_high:
  assumes "\<not> v mod 4294967296 < 2147483648"
  shows "size_t_of_int (int_of_size_t v) = v mod 4294967296 + 18446744069414584320"
proof -
  let ?m = "int (v mod 4294967296)"
  have m: "2147483648 \<le> ?m" "?m < 4294967296" using assms by simp_all
  have "(?m - 4294967296) mod 18446744073709551616 =
      (?m + 18446744069414584320) mod 18446744073709551616"
    using mod_add_self2 [of "?m - 4294967296" 18446744073709551616] by simp
  also have "\<dots> = ?m + 18446744069414584320"
    using m by (simp add: mod_pos_pos_trivial)
  finally have "(?m - 4294967296) mod 18446744073709551616 = ?m + 18446744069414584320" .
  then show ?thesis using m
    unfolding int_of_size_t_def size_t_of_int_def Let_def int_mod_nat
    by (simp add: nat_add_distrib)
qed

lemma int_round_trip_exact: "v < 2147483648 \<Longrightarrow> size_t_of_int (int_of_size_t v) = v"
  by (simp add: int_round_trip_low)

lemma int_round_trip_gap:
  "size_t_of_int (int_of_size_t v) < 2147483648 \<or>
   18446744071562067968 \<le> size_t_of_int (int_of_size_t v)"
  by (cases "v mod 4294967296 < 2147483648")
     (simp_all add: int_round_trip_low int_round_trip_high)

lemma rehash_loop_nth:
  "b < length hp \<Longrightarrow>
   rehash_loop h vs n is hp ! b =
     hp ! b @ filter (\<lambda>i. size_t_of_int (int_of_size_t (h (fst (vs ! i)) mod n)) = b) is"
proof (induction "is" arbitrary: hp)
  case Nil
  then show ?case by simp
next
  case (Cons i "is")
  let ?c = "size_t_of_int (int_of_size_t (h (fst (vs ! i)) mod n))"
  have "hp[?c := hp ! ?c @ [i]] ! b = (if ?c = b then hp ! b @ [i] else hp ! b)"
    using Cons.prems by (cases "?c < length hp") (auto simp: nth_list_update list_update_beyond)
  then show ?case using Cons.IH [of "hp[?c := hp ! ?c @ [i]]"] Cons.prems
    by (simp add: Let_def)
qed

lemma value_store_check [simp]: "value_store (check_and_reallocate s) = value_store s"
  by (simp add: check_and_reallocate_def Let_def)

lemma hasher_check [simp]: "hasher (check_and_reallocate s) = hasher s"
  by (simp add: check_and_reallocate_def Let_def)

lemma bucket_count_check:
  "length (hashed_pointers (check_and_reallocate s)) =
     (if 3 * length (value_store s) \<ge> 2 * length (hashed_pointers s)
      then 2 * length (hashed_pointers s) else length (hashed_pointers s))"
  by (simp add: check_and_reallocate_def Let_def length_rehash_loop
        INCREMENT_FACTOR_def REALLOCATION_FACTOR_def mult.commute)

text \<open>A rehash keeps the invariant when \<^verbatim>\<open>int cur_position\<close> holds every bucket number
  exactly, which it does for every key when the new bucket count is at most \<open>2 ^ 31\<close>.\<close>

lemma invar_check_exact:
  assumes "invar s"
    and exact: "2 * length (hashed_pointers s) \<le> 3 * length (value_store s) \<Longrightarrow>
      \<forall>i < length (value_store s).
        hasher s (fst (value_store s ! i)) mod (2 * length (hashed_pointers s)) < 2147483648"
  shows "invar (check_and_reallocate s)"
proof (cases "3 * length (value_store s) \<ge> 2 * length (hashed_pointers s)")
  case False
  then show ?thesis using assms(1)
    by (simp add: check_and_reallocate_def INCREMENT_FACTOR_def REALLOCATION_FACTOR_def mult.commute)
next
  case True
  let ?n = "2 * length (hashed_pointers s)"
  let ?hp = "rehash_loop (hasher s) (value_store s) ?n [0 ..< length (value_store s)] (replicate ?n [])"
  have eq: "check_and_reallocate s = s\<lparr>hashed_pointers := ?hp\<rparr>"
    using True
    by (simp add: check_and_reallocate_def INCREMENT_FACTOR_def REALLOCATION_FACTOR_def mult.commute Let_def)
  have n: "0 < ?n" using invar_buckets [OF assms(1)] by simp
  have len: "length ?hp = ?n" by (simp add: length_rehash_loop)
  have ex: "size_t_of_int (int_of_size_t (hasher s (fst (value_store s ! i)) mod ?n)) =
      hasher s (fst (value_store s ! i)) mod ?n" if "i < length (value_store s)" for i
    using exact [OF True] that by (simp add: int_round_trip_exact)
  have "filter (\<lambda>i. size_t_of_int (int_of_size_t (hasher s (fst (value_store s ! i)) mod ?n)) = b)
      [0 ..< length (value_store s)] =
    filter (\<lambda>i. hasher s (fst (value_store s ! i)) mod ?n = b) [0 ..< length (value_store s)]" for b
    by (rule filter_cong) (simp_all add: ex)
  then have nth: "?hp ! b = filter (\<lambda>i. hasher s (fst (value_store s ! i)) mod ?n = b) [0 ..< length (value_store s)]"
    if "b < ?n" for b
    using rehash_loop_nth [of b "replicate ?n []" "hasher s" "value_store s" ?n] that
    by simp
  show ?thesis
    unfolding eq
    by (rule invarI) (use n len nth invar_keys [OF assms(1)] in \<open>auto\<close>)
qed

lemma invar_check:
  assumes "invar s"
    and "2 * length (hashed_pointers s) \<le> 3 * length (value_store s) \<Longrightarrow>
      2 * length (hashed_pointers s) \<le> 2147483648"
  shows "invar (check_and_reallocate s)"
proof (rule invar_check_exact [OF assms(1)])
  assume t: "2 * length (hashed_pointers s) \<le> 3 * length (value_store s)"
  show "\<forall>i < length (value_store s).
      hasher s (fst (value_store s ! i)) mod (2 * length (hashed_pointers s)) < 2147483648"
  proof (intro allI impI)
    fix i
    have "0 < 2 * length (hashed_pointers s)" using invar_buckets [OF assms(1)] by simp
    then have "hasher s (fst (value_store s ! i)) mod (2 * length (hashed_pointers s))
        < 2 * length (hashed_pointers s)"
      by (rule mod_less_divisor)
    then show "hasher s (fst (value_store s ! i)) mod (2 * length (hashed_pointers s)) < 2147483648"
      using assms(2) [OF t] by simp
  qed
qed

lemma find_end_absent:
  assumes "invar s"
  shows "find_hm s k = end_hm s \<longleftrightarrow> k \<notin> fst ` set (value_store s)"
proof
  assume "find_hm s k = end_hm s"
  then have "\<not> find_hm s k < length (value_store s)" by (simp add: end_hm_def)
  then show "k \<notin> fst ` set (value_store s)"
    using find_hm_cases [OF assms, of k] by simp
next
  assume "k \<notin> fst ` set (value_store s)"
  then show "find_hm s k = end_hm s"
    using find_hm_absent [OF assms] by (simp add: end_hm_def)
qed

lemma insert_hm_absent:
  "find_hm s (fst kv) = end_hm s \<Longrightarrow> insert_hm s kv = check_and_reallocate (push s kv)"
  by (simp add: insert_hm_def push_def Let_def)

lemma insert_hm_present:
  "find_hm s (fst kv) \<noteq> end_hm s \<Longrightarrow> insert_hm s kv = s"
  by (simp add: insert_hm_def)

lemma push_simps [simp]:
  "value_store (push s kv) = value_store s @ [kv]"
  "length (hashed_pointers (push s kv)) = length (hashed_pointers s)"
  "hasher (push s kv) = hasher s"
  by (simp_all add: push_def)

lemma push_bucket:
  "b < length (hashed_pointers s) \<Longrightarrow>
   hashed_pointers (push s kv) ! b =
     (if b = hasher s (fst kv) mod length (hashed_pointers s)
      then hashed_pointers s ! b @ [length (value_store s)]
      else hashed_pointers s ! b)"
  by (simp add: push_def nth_list_update)

lemma invar_push:
  assumes "invar s" "fst kv \<notin> fst ` set (value_store s)"
  shows "invar (push s kv)"
proof (rule invarI)
  let ?n = "length (hashed_pointers s)"
  let ?b0 = "hasher s (fst kv) mod ?n"
  let ?m = "length (value_store s)"
  have n: "0 < ?n" using assms(1) by (rule invar_buckets)
  show "0 < length (hashed_pointers (push s kv))" using n by simp
  show "distinct (map fst (value_store (push s kv)))"
    using invar_keys [OF assms(1)] assms(2) by simp
  fix b assume "b < length (hashed_pointers (push s kv))"
  then have b: "b < ?n" by simp
  have old: "set (hashed_pointers s ! b) =
     {p. p < ?m \<and> hasher s (fst (value_store s ! p)) mod ?n = b}"
    by (rule invar_set [OF assms(1) b])
  have fresh: "?m \<notin> set (hashed_pointers s ! b)" unfolding old by simp
  have pb: "hashed_pointers (push s kv) ! b =
     (if b = ?b0 then hashed_pointers s ! b @ [?m] else hashed_pointers s ! b)"
    by (rule push_bucket [OF b])
  show "distinct (hashed_pointers (push s kv) ! b)"
    unfolding pb using invar_distinct [OF assms(1) b] fresh by auto
  have new: "{p. p < Suc ?m \<and> hasher s (fst ((value_store s @ [kv]) ! p)) mod ?n = b} =
     {p. p < ?m \<and> hasher s (fst (value_store s ! p)) mod ?n = b} \<union> (if b = ?b0 then {?m} else {})"
    by (auto simp: nth_append less_Suc_eq)
  show "set (hashed_pointers (push s kv) ! b) =
     {p. p < length (value_store (push s kv)) \<and>
         hasher (push s kv) (fst (value_store (push s kv) ! p)) mod
           length (hashed_pointers (push s kv)) = b}"
    unfolding pb using old new by auto
qed

lemma buckets_insert_hm:
  "length (hashed_pointers (insert_hm s kv)) =
     (if find_hm s (fst kv) = end_hm s \<and>
         2 * length (hashed_pointers s) \<le> 3 * (length (value_store s) + 1)
      then 2 * length (hashed_pointers s) else length (hashed_pointers s))"
  by (simp add: insert_hm_def Let_def bucket_count_check)

text \<open>An insert keeps the invariant when its rehash, if there is one, is exact for every
  stored key and the new one; in particular when it leaves at most \<open>2 ^ 31\<close> buckets.\<close>

lemma invar_insert_hm_exact:
  assumes "invar s"
    and exact: "find_hm s (fst kv) = end_hm s \<Longrightarrow>
      2 * length (hashed_pointers s) \<le> 3 * (length (value_store s) + 1) \<Longrightarrow>
      \<forall>i < length (value_store s) + 1.
        hasher s (fst ((value_store s @ [kv]) ! i)) mod (2 * length (hashed_pointers s))
          < 2147483648"
  shows "invar (insert_hm s kv)"
proof (cases "find_hm s (fst kv) = end_hm s")
  case False
  then show ?thesis using assms(1) by (simp add: insert_hm_present)
next
  case True
  then have "invar (push s kv)" using assms(1) by (simp add: invar_push find_end_absent)
  then have "invar (check_and_reallocate (push s kv))"
    by (rule invar_check_exact) (use exact [OF True] in simp)
  then show ?thesis using True by (simp add: insert_hm_absent)
qed

lemma invar_insert_hm:
  assumes "invar s" "length (hashed_pointers (insert_hm s kv)) \<le> 2147483648"
  shows "invar (insert_hm s kv)"
proof (rule invar_insert_hm_exact [OF assms(1)], intro allI impI)
  fix i
  assume a: "find_hm s (fst kv) = end_hm s"
    "2 * length (hashed_pointers s) \<le> 3 * (length (value_store s) + 1)"
  then have le: "2 * length (hashed_pointers s) \<le> 2147483648"
    using assms(2) by (simp add: buckets_insert_hm)
  have "0 < 2 * length (hashed_pointers s)" using invar_buckets [OF assms(1)] by simp
  then have "hasher s (fst ((value_store s @ [kv]) ! i)) mod (2 * length (hashed_pointers s))
      < 2 * length (hashed_pointers s)"
    by (rule mod_less_divisor)
  then show "hasher s (fst ((value_store s @ [kv]) ! i)) mod (2 * length (hashed_pointers s))
      < 2147483648"
    using le by simp
qed

section \<open>Erasing keeps the invariant\<close>

lemma last_butlast_rotate:
  assumes "xs \<noteq> []" "distinct xs"
  shows "set (last xs # butlast xs) = set xs \<and> distinct (last xs # butlast xs)"
proof -
  obtain ys y where "xs = ys @ [y]" using assms(1) by (cases xs rule: rev_cases) auto
  then show ?thesis using assms(2) by auto
qed

lemma swap_pop_set_distinct:
  "distinct b \<Longrightarrow> i \<in> set b \<Longrightarrow> set (swap_pop i b) = set b - {i} \<and> distinct (swap_pop i b)"
proof (induction b)
  case Nil
  then show ?case by simp
next
  case (Cons x xs)
  show ?case
  proof (cases "x = i")
    case True
    show ?thesis
    proof (cases "xs = []")
      case True
      with \<open>x = i\<close> show ?thesis by simp
    next
      case False
      then have "set (last xs # butlast xs) = set xs \<and> distinct (last xs # butlast xs)"
        using Cons.prems(1) by (intro last_butlast_rotate) simp_all
      then show ?thesis using \<open>x = i\<close> False Cons.prems(1) by auto
    qed
  next
    case False
    then show ?thesis using Cons by auto
  qed
qed

lemma repoint_absent: "i1 \<notin> set b \<Longrightarrow> repoint i1 i0 b = b"
  by (induction b) auto

lemma repoint_set_distinct:
  "distinct b \<Longrightarrow> i1 \<in> set b \<Longrightarrow> i0 \<notin> set b \<Longrightarrow>
   set (repoint i1 i0 b) = insert i0 (set b - {i1}) \<and> distinct (repoint i1 i0 b)"
  by (induction b) auto

lemma erase_absent: "find_hm s k = end_hm s \<Longrightarrow> erase s k = s"
  by (simp add: erase_def)

lemma swap_butlast:
  "butlast (vs[i := last vs, length vs - Suc 0 := y]) = (butlast vs)[i := last vs]"
  by (simp add: butlast_list_update list_update_beyond)

lemma erase_present:
  assumes "invar s" "p0 < length (value_store s)" "fst (value_store s ! p0) = k"
  shows "erase s k =
     s\<lparr>value_store := (butlast (value_store s))[p0 := last (value_store s)],
       hashed_pointers :=
         (let hp = hashed_pointers s;
              hash0 = hasher s k mod length hp;
              hash1 = hasher s (fst (last (value_store s))) mod length hp;
              hp' = hp[hash0 := swap_pop p0 (hp ! hash0)]
          in hp'[hash1 := repoint (length (value_store s) - 1) p0 (hp' ! hash1)])\<rparr>"
proof -
  have f: "find_hm s k = p0" using assms by (rule find_hm_present)
  then have "find_hm s k \<noteq> end_hm s" using assms(2) by (simp add: end_hm_def)
  then show ?thesis
    unfolding erase_def Let_def f by (simp add: swap_butlast)
qed

lemma erase_bucket:
  assumes "invar s" "p0 < length (value_store s)" "fst (value_store s ! p0) = k"
    "b < length (hashed_pointers s)"
  shows "distinct (hashed_pointers (erase s k) ! b) \<and>
     set (hashed_pointers (erase s k) ! b) =
       (set (hashed_pointers s ! b) - {p0, length (value_store s) - 1}) \<union>
       (if b = hasher s (fst (last (value_store s))) mod length (hashed_pointers s)
           \<and> p0 \<noteq> length (value_store s) - 1
        then {p0} else {})"
proof -
  let ?vs = "value_store s"
  let ?hp = "hashed_pointers s"
  let ?N = "length ?hp"
  let ?L = "length ?vs - 1"
  let ?hash0 = "hasher s k mod ?N"
  let ?hash1 = "hasher s (fst (last ?vs)) mod ?N"
  let ?hp' = "?hp[?hash0 := swap_pop p0 (?hp ! ?hash0)]"
  let ?hp'' = "?hp'[?hash1 := repoint ?L p0 (?hp' ! ?hash1)]"
  have N: "0 < ?N" using assms(1) by (rule invar_buckets)
  have h0: "?hash0 < ?N" and h1: "?hash1 < ?N" using N by simp_all
  have ne: "?vs \<noteq> []" using assms(2) by auto
  have last: "last ?vs = ?vs ! ?L" using ne by (simp add: last_conv_nth)
  have L: "?L < length ?vs" using ne by simp
  have S: "set (?hp ! c) = {p. p < length ?vs \<and> hasher s (fst (?vs ! p)) mod ?N = c}"
    if "c < ?N" for c using invar_set [OF assms(1) that] .
  have D: "distinct (?hp ! c)" if "c < ?N" for c using invar_distinct [OF assms(1) that] .
  have p0_in: "p0 \<in> set (?hp ! c) \<longleftrightarrow> c = ?hash0" if "c < ?N" for c
    using S [OF that] assms(2,3) by auto
  have L_in: "?L \<in> set (?hp ! c) \<longleftrightarrow> c = ?hash1" if "c < ?N" for c
    using S [OF that] L last by auto
  have eq: "hashed_pointers (erase s k) = ?hp''"
    using erase_present [OF assms(1-3)] by (simp add: Let_def)
  have hp': "distinct (?hp' ! c) \<and> set (?hp' ! c) = set (?hp ! c) - {p0}" if "c < ?N" for c
  proof (cases "c = ?hash0")
    case True
    then have "?hp' ! c = swap_pop p0 (?hp ! c)" using that by simp
    then show ?thesis
      using swap_pop_set_distinct [OF D [OF that], of p0] p0_in [OF that] True by simp
  next
    case False
    then have "?hp' ! c = ?hp ! c" by simp
    then show ?thesis using D [OF that] p0_in [OF that] False by simp
  qed
  show ?thesis
  proof (cases "b = ?hash1")
    case False
    then have "?hp'' ! b = ?hp' ! b" by simp
    moreover have "?L \<notin> set (?hp ! b)" using L_in [OF assms(4)] False by simp
    ultimately show ?thesis using hp' [OF assms(4)] False unfolding eq by auto
  next
    case True
    then have b'': "?hp'' ! b = repoint ?L p0 (?hp' ! b)" using assms(4) by simp
    have Lb: "?L \<in> set (?hp ! b)" using L_in [OF assms(4)] True by simp
    show ?thesis
    proof (cases "p0 = ?L")
      case True
      then have "?L \<notin> set (?hp' ! b)" using hp' [OF assms(4)] by simp
      then have "?hp'' ! b = ?hp' ! b" unfolding b'' by (rule repoint_absent)
      then show ?thesis using hp' [OF assms(4)] True unfolding eq by auto
    next
      case False
      then have "?L \<in> set (?hp' ! b)" "p0 \<notin> set (?hp' ! b)"
        using hp' [OF assms(4)] Lb by auto
      with repoint_set_distinct [of "?hp' ! b" ?L p0] hp' [OF assms(4)]
      have "set (?hp'' ! b) = insert p0 (set (?hp' ! b) - {?L}) \<and> distinct (?hp'' ! b)"
        unfolding b'' by simp
      then show ?thesis using hp' [OF assms(4)] False \<open>b = ?hash1\<close> unfolding eq by auto
    qed
  qed
qed

lemma erase_sizes:
  assumes "invar s" "p0 < length (value_store s)" "fst (value_store s ! p0) = k"
  shows "length (value_store (erase s k)) = length (value_store s) - 1"
    and "length (hashed_pointers (erase s k)) = length (hashed_pointers s)"
    and "hasher (erase s k) = hasher s"
  using erase_present [OF assms] by (simp_all add: Let_def)

lemma erase_nth:
  assumes "invar s" "p0 < length (value_store s)" "fst (value_store s ! p0) = k"
    "p < length (value_store s) - 1"
  shows "value_store (erase s k) ! p =
     (if p = p0 then value_store s ! (length (value_store s) - 1) else value_store s ! p)"
proof -
  have "value_store s \<noteq> []" using assms(2) by auto
  then have "last (value_store s) = value_store s ! (length (value_store s) - 1)"
    by (simp add: last_conv_nth)
  then show ?thesis
    using erase_present [OF assms(1-3)] assms(4)
    by (simp add: nth_list_update nth_butlast)
qed

lemma invar_erase:
  assumes "invar s"
  shows "invar (erase s k)"
proof (cases "k \<in> fst ` set (value_store s)")
  case False
  then show ?thesis using assms erase_absent find_end_absent [OF assms] by metis
next
  case True
  then obtain p0 where p0: "p0 < length (value_store s)" "fst (value_store s ! p0) = k"
    by (auto simp: in_set_conv_nth)
  let ?vs = "value_store s"
  let ?N = "length (hashed_pointers s)"
  let ?L = "length ?vs - 1"
  note sz = erase_sizes [OF assms p0]
  note nth = erase_nth [OF assms p0]
  have last: "last ?vs = ?vs ! ?L" using p0(1) by (cases "?vs = []") (auto simp: last_conv_nth)
  have L: "?L < length ?vs" using p0(1) by simp
  have inj: "p = q" if "p < length ?vs" "q < length ?vs" "fst (?vs ! p) = fst (?vs ! q)" for p q
    using keys_nth_eq [OF invar_keys [OF assms] that] .
  show ?thesis
  proof (rule invarI)
    show "0 < length (hashed_pointers (erase s k))" using invar_buckets [OF assms] sz by simp
    show "distinct (map fst (value_store (erase s k)))"
      unfolding distinct_conv_nth
    proof (intro allI impI)
      fix i j
      assume "i < length (map fst (value_store (erase s k)))"
        "j < length (map fst (value_store (erase s k)))" "i \<noteq> j"
      then have ij: "i < ?L" "j < ?L" "i \<noteq> j" using sz by simp_all
      let ?f = "\<lambda>p. if p = p0 then ?L else p"
      have "fst (?vs ! ?f i) \<noteq> fst (?vs ! ?f j)"
        using inj [of "?f i" "?f j"] ij L by (auto split: if_splits)
      then show "map fst (value_store (erase s k)) ! i \<noteq> map fst (value_store (erase s k)) ! j"
        using ij sz(1) nth [of i] nth [of j] by (auto split: if_splits)
    qed
  next
    fix b assume "b < length (hashed_pointers (erase s k))"
    then have b: "b < ?N" using sz by simp
    from erase_bucket [OF assms p0 b]
    show "distinct (hashed_pointers (erase s k) ! b)" by simp
    have old: "set (hashed_pointers s ! b) =
       {p. p < length ?vs \<and> hasher s (fst (?vs ! p)) mod ?N = b}"
      by (rule invar_set [OF assms b])
    have "set (hashed_pointers (erase s k) ! b) =
       (set (hashed_pointers s ! b) - {p0, ?L}) \<union>
       (if b = hasher s (fst (?vs ! ?L)) mod ?N \<and> p0 \<noteq> ?L then {p0} else {})"
      using erase_bucket [OF assms p0 b] last by simp
    also have "\<dots> = {p. p < ?L \<and> hasher s (fst (value_store (erase s k) ! p)) mod ?N = b}"
      unfolding old using p0(1) L by (auto simp: nth split: if_splits)
    finally show "set (hashed_pointers (erase s k) ! b) =
       {p. p < length (value_store (erase s k)) \<and>
           hasher (erase s k) (fst (value_store (erase s k) ! p)) mod
             length (hashed_pointers (erase s k)) = b}"
      using sz by simp
  qed
qed

section \<open>Further properties of the operations\<close>

lemma count_list_distinct:
  "distinct xs \<Longrightarrow> count_list xs x = (if x \<in> set xs then 1 else 0)"
  by (induction xs) auto

lemma invar_bucket_index_ok:
  assumes "invar s"
  shows "bucket_index_ok s"
  unfolding bucket_index_ok_def
proof (intro ballI)
  fix p b
  assume "p \<in> {0 ..< size_hm s}" "b \<in> {0 ..< bucket_count s}"
  then have p: "p < length (value_store s)" and b: "b < length (hashed_pointers s)"
    by (simp_all add: size_hm_def bucket_count_def)
  show "count_list (hashed_pointers s ! b) p =
     (if b = hasher s (fst (value_store s ! p)) mod bucket_count s then 1 else 0)"
    using invar_set [OF assms b] p
    by (auto simp: count_list_distinct [OF invar_distinct [OF assms b]] bucket_count_def)
qed

lemma invar_default: "invar (HashMap_default h)"
  by (simp add: invar_def HashMap_default_def)

lemma buckets_insert_mono:
  "length (hashed_pointers s) \<le> length (hashed_pointers (insert_hm s kv))"
  by (simp add: buckets_insert_hm)

lemma buckets_fold_mono:
  "length (hashed_pointers s) \<le>
   length (hashed_pointers (fold (\<lambda>elem s. insert_hm s elem) elems s))"
proof (induction elems arbitrary: s)
  case Nil
  then show ?case by simp
next
  case (Cons e es)
  show ?case using buckets_insert_mono [of s e] Cons [of "insert_hm s e"] by simp
qed

lemma invar_fold_insert:
  "invar s \<Longrightarrow>
   length (hashed_pointers (fold (\<lambda>elem s. insert_hm s elem) elems s)) \<le> 2147483648 \<Longrightarrow>
   invar (fold (\<lambda>elem s. insert_hm s elem) elems s)"
proof (induction elems arbitrary: s)
  case Nil
  then show ?case by simp
next
  case (Cons e es)
  have "length (hashed_pointers (insert_hm s e)) \<le> 2147483648"
    using buckets_fold_mono [of "insert_hm s e" es] Cons.prems(2) by simp
  then have "invar (insert_hm s e)" using Cons.prems(1) by (simp add: invar_insert_hm)
  then show ?case using Cons.IH [of "insert_hm s e"] Cons.prems(2) by simp
qed

lemma invar_clear: "invar (clear s)"
  by (simp add: invar_def clear_def)

lemma invar_assign:
  assumes "invar s"
  shows "invar (assign s p v)"
proof -
  have "map fst ((value_store s)[p := (fst (value_store s ! p), v)]) = map fst (value_store s)"
    by (cases "p < length (value_store s)") (simp_all add: map_update list_update_same_conv list_update_beyond)
  moreover have "fst ((value_store s)[p := (fst (value_store s ! p), v)] ! q) = fst (value_store s ! q)" for q
    by (cases "p < length (value_store s)") (simp_all add: nth_list_update list_update_beyond)
  ultimately show ?thesis using assms by (simp add: invar_def assign_def)
qed

lemma hasher_insert_hm [simp]: "hasher (insert_hm s kv) = hasher s"
  by (simp add: insert_hm_def Let_def)

lemma hasher_fold_insert [simp]:
  "hasher (fold (\<lambda>elem s. insert_hm s elem) elems s) = hasher s"
  by (induction elems arbitrary: s) simp_all

lemma bucket_count_insert_hm:
  "bucket_count (insert_hm s kv) =
     (if find_hm s (fst kv) = end_hm s \<and> 2 * bucket_count s \<le> 3 * (size_hm s + 1)
      then 2 * bucket_count s else bucket_count s)"
  by (simp add: insert_hm_def Let_def bucket_count_def size_hm_def bucket_count_check)

lemma size_insert_hm:
  "size_hm (insert_hm s kv) = (if find_hm s (fst kv) = end_hm s then size_hm s + 1 else size_hm s)"
  by (simp add: insert_hm_def Let_def size_hm_def)

lemma doubling_suffices: "3 * m < 2 * n \<Longrightarrow> 3 + 3 * m < 4 * (n::nat)"
  by (cases "n = 1") auto

lemma load_ok_insert_hm: "load_ok s \<Longrightarrow> load_ok (insert_hm s kv)"
  unfolding load_ok_def bucket_count_insert_hm size_insert_hm
  by (auto split: if_splits dest: doubling_suffices)

lemma bucket_count_erase [simp]: "bucket_count (erase s k) = bucket_count s"
  by (simp add: erase_def Let_def bucket_count_def)

lemma size_erase_le: "size_hm (erase s k) \<le> size_hm s"
  by (simp add: erase_def Let_def size_hm_def)

lemma load_ok_erase: "load_ok s \<Longrightarrow> load_ok (erase s k)"
  using size_erase_le [of s k] by (simp add: load_ok_def)

lemma load_ok_default: "load_ok (HashMap_default h)"
  by (simp add: load_ok_def HashMap_default_def size_hm_def bucket_count_def)

lemma load_ok_clear: "load_ok (clear s)"
  by (simp add: load_ok_def clear_def size_hm_def bucket_count_def)

lemma bucket_count_clear: "bucket_count (clear s) = 1"
  by (simp add: clear_def bucket_count_def)

lemma load_ok_assign: "load_ok s \<Longrightarrow> load_ok (assign s p v)"
  by (simp add: load_ok_def assign_def size_hm_def bucket_count_def)

lemma load_ok_fold_insert:
  "load_ok s \<Longrightarrow> load_ok (fold (\<lambda>elem s. insert_hm s elem) elems s)"
  by (induction elems arbitrary: s) (simp_all add: load_ok_insert_hm)

lemma snd_subscript:
  "snd (subscript s init k) = (if find_hm s k = end_hm s then insert_hm s (k, init) else s)"
  by (simp add: subscript_def Let_def)

lemma snd_run_cases:
  "snd (run init c s) =
     (case c of Erase k \<Rightarrow> erase s k | Insert kv \<Rightarrow> insert_hm s kv
      | Subscript k \<Rightarrow> snd (subscript s init k) | Clear \<Rightarrow> clear s | _ \<Rightarrow> s)"
  by (cases c) (simp_all split: sum.splits prod.splits)

lemma load_ok_run: "load_ok s \<Longrightarrow> load_ok (snd (run init c s))"
  unfolding snd_run_cases
  by (cases c) (simp_all add: load_ok_insert_hm load_ok_erase load_ok_clear snd_subscript)

lemma reachable_load_ok: "reachable s \<Longrightarrow> load_ok s"
proof (induction rule: reachable.induct)
  case (by_call s init c r s')
  then show ?case using load_ok_run [of s init c] by simp
qed (simp_all add: load_ok_default load_ok_fold_insert load_ok_assign
       HashMap_range_def HashMap_init_list_def)

lemma bucket_count_run_mono:
  "c \<noteq> Clear \<Longrightarrow> bucket_count s \<le> bucket_count (snd (run init c s))"
  unfolding snd_run_cases
  by (cases c) (simp_all add: bucket_count_insert_hm snd_subscript)

lemma bucket_count_run_same:
  "(\<forall>kv. c \<noteq> Insert kv) \<Longrightarrow> (\<forall>k. c \<noteq> Subscript k) \<Longrightarrow> c \<noteq> Clear \<Longrightarrow>
   bucket_count (snd (run init c s)) = bucket_count s"
  unfolding snd_run_cases by (cases c) simp_all

lemma invar_run:
  assumes "invar s" "bucket_count (snd (run init c s)) \<le> 2147483648"
  shows "invar (snd (run init c s))"
proof (cases c)
  case (Insert kv)
  then show ?thesis using assms by (simp add: invar_insert_hm bucket_count_def)
next
  case (Subscript k)
  then have "snd (run init c s) = snd (subscript s init k)" by (simp split: prod.splits)
  then show ?thesis using assms
    by (cases "find_hm s k = end_hm s")
       (simp_all add: snd_subscript invar_insert_hm bucket_count_def)
qed (use assms in \<open>simp_all add: invar_erase invar_clear split: sum.splits\<close>)

text \<open>Every reachable state with at most \<open>2 ^ 31\<close> buckets satisfies the invariant: the
  bucket count falls only in \<open>clear\<close>, which establishes the invariant whatever the state,
  so that every rehash on the way to such a state was exact.\<close>

lemma reachable_invar: "reachable s \<Longrightarrow> bucket_count s \<le> 2147483648 \<Longrightarrow> invar s"
proof (induction rule: reachable.induct)
  case (by_default h)
  show ?case by (rule invar_default)
next
  case (by_range elems h)
  then show ?case
    by (simp add: HashMap_range_def bucket_count_def invar_fold_insert invar_default)
next
  case (by_init_list elems h)
  then show ?case
    by (simp add: HashMap_init_list_def bucket_count_def invar_fold_insert invar_default)
next
  case (by_call s init c r s')
  then have s': "s' = snd (run init c s)" by simp
  show ?case
  proof (cases "c = Clear")
    case True
    then show ?thesis using s' by (simp add: invar_clear)
  next
    case False
    then have "bucket_count s \<le> bucket_count s'"
      unfolding s' by (rule bucket_count_run_mono)
    then have "invar s" using by_call.IH by_call.prems by simp
    then show ?thesis unfolding s' using by_call.prems s' by (intro invar_run) simp_all
  qed
next
  case (by_write s p v)
  then have "invar s" by (simp add: assign_def bucket_count_def)
  then show ?case by (rule invar_assign)
qed

lemma bucket_index_bounded:
  assumes "reachable s" "bucket_count s \<le> 2147483648"
  shows "0 < bucket_count s \<and> bucket_index_ok s"
proof -
  have "invar s" using assms by (rule reachable_invar)
  then show ?thesis
    using invar_bucket_index_ok [of s] invar_buckets [of s] by (simp add: bucket_count_def)
qed

lemma reachable_five: "reachable five"
  unfolding five_def by (rule reachable.by_range)

lemma reachable_abc: "reachable abc"
  unfolding abc_def by (rule reachable.by_init_list)


lemma abc_buckets: "hashed_pointers abc = [[], [0], [1], [2], [], [], [], []]"
  by code_simp

lemma abc_hasher: "hasher abc = (\<lambda>k. k)"
  by (simp add: abc_def HashMap_init_list_def HashMap_default_def)



lemma collide_buckets: "hashed_pointers collide = [[0, 1, 2], [], [], [], [], [], [], []]"
  by code_simp


lemma five_store:
  "value_store five = [(1, ''a''), (2, ''b''), (3, ''c''), (4, ''d''), (5, ''e'')]"
  by code_simp

lemma five_invar: "invar five"
  by code_simp

lemma value_store_insert_absent:
  assumes "invar s" "fst kv \<notin> fst ` set (value_store s)"
  shows "value_store (insert_hm s kv) = value_store s @ [kv]"
proof -
  have "find_hm s (fst kv) = end_hm s" using assms by (simp add: find_end_absent)
  then show ?thesis by (simp add: insert_hm_absent)
qed

lemma find_insert_absent:
  assumes "invar s" "fst kv \<notin> fst ` set (value_store s)" "2 * bucket_count s \<le> 2147483648"
  shows "find_hm (insert_hm s kv) (fst kv) = length (value_store s)"
proof -
  have vs: "value_store (insert_hm s kv) = value_store s @ [kv]"
    using assms(1,2) by (rule value_store_insert_absent)
  have "length (hashed_pointers (insert_hm s kv)) \<le> 2147483648"
    using assms(3) by (simp add: buckets_insert_hm bucket_count_def)
  then have "invar (insert_hm s kv)" using assms(1) by (simp add: invar_insert_hm)
  then show ?thesis by (rule find_hm_present) (simp_all add: vs)
qed

text \<open>Where the doubled bucket count fits \<^verbatim>\<open>int\<close>, an inserted pair is found, and
  \<^verbatim>\<open>operator[]\<close> on an absent key returns the new last position.\<close>

lemma insert_find_roundtrip_bounded:
  assumes "invar s" "K \<notin> fst ` set (value_store s)" "2 * bucket_count s \<le> 2147483648"
  shows "find_hm (insert_hm s (K, V)) K \<noteq> end_hm (insert_hm s (K, V)) \<and>
         value_store (insert_hm s (K, V)) ! find_hm (insert_hm s (K, V)) K = (K, V)"
  using value_store_insert_absent [of s "(K, V)"] find_insert_absent [of s "(K, V)"] assms
  by (simp add: end_hm_def)

lemma subscript_absent_bounded:
  assumes "invar s" "K \<notin> fst ` set (value_store s)" "2 * bucket_count s \<le> 2147483648"
  shows "subscript s init K = (size_hm s, insert_hm s (K, init)) \<and>
    size_hm (insert_hm s (K, init)) = size_hm s + 1 \<and>
    value_store (insert_hm s (K, init)) ! size_hm s = (K, init) \<and>
    value_store (insert_hm s (K, init)) = value_store s @ [(K, init)]"
proof -
  have "find_hm s K = end_hm s" using assms by (simp add: find_end_absent)
  then show ?thesis
    using value_store_insert_absent [of s "(K, init)"] find_insert_absent [of s "(K, init)"] assms
    by (simp add: subscript_def size_hm_def)
qed



lemma insert_absent_exact:
  assumes "invar s" "fst kv \<notin> fst ` set (value_store s)"
    and "2 * length (hashed_pointers s) \<le> 3 * (length (value_store s) + 1) \<Longrightarrow>
      \<forall>i < length (value_store s) + 1.
        hasher s (fst ((value_store s @ [kv]) ! i)) mod (2 * length (hashed_pointers s))
          < 2147483648"
  shows "invar (insert_hm s kv) \<and> value_store (insert_hm s kv) = value_store s @ [kv] \<and>
    length (hashed_pointers (insert_hm s kv)) =
      (if 2 * length (hashed_pointers s) \<le> 3 * (length (value_store s) + 1)
       then 2 * length (hashed_pointers s) else length (hashed_pointers s))"
proof -
  have f: "find_hm s (fst kv) = end_hm s" using assms(1,2) by (simp add: find_end_absent)
  have "invar (insert_hm s kv)"
    by (rule invar_insert_hm_exact [OF assms(1)]) (use assms(3) in simp)
  then show ?thesis
    using f value_store_insert_absent [OF assms(1,2)] by (simp add: buckets_insert_hm)
qed

lemma insert_absent_step:
  assumes "invar s" "fst kv \<notin> fst ` set (value_store s)" "2 * bucket_count s \<le> 2147483648"
  shows "invar (insert_hm s kv) \<and> value_store (insert_hm s kv) = value_store s @ [kv] \<and>
    bucket_count (insert_hm s kv) =
      (if 2 * bucket_count s \<le> 3 * (size_hm s + 1) then 2 * bucket_count s else bucket_count s)"
proof -
  have "length (hashed_pointers (insert_hm s kv)) \<le> 2147483648"
    using assms(3) by (simp add: buckets_insert_hm bucket_count_def)
  then have "invar (insert_hm s kv)" using assms(1) by (simp add: invar_insert_hm)
  then show ?thesis
    using assms(1,2) value_store_insert_absent [of s kv] find_end_absent [of s "fst kv"]
    by (simp add: bucket_count_insert_hm)
qed

lemma three_inserts:
  fixes h :: "nat \<Rightarrow> nat"
  defines "s1 \<equiv> insert_hm (HashMap_default h) (1, ''a'')"
  defines "s2 \<equiv> insert_hm s1 (2, ''b'')"
  defines "s3 \<equiv> insert_hm s2 (3, ''c'')"
  shows "bucket_count (HashMap_default h :: (nat, string) HashMap) = 1 \<and> bucket_count s1 = 2 \<and>
    bucket_count s2 = 4 \<and> bucket_count s3 = 8 \<and>
    value_store s3 = [(1, ''a''), (2, ''b''), (3, ''c'')]"
proof -
  let ?s0 = "HashMap_default h :: (nat, string) HashMap"
  have s0: "invar ?s0" "value_store ?s0 = []" "bucket_count ?s0 = 1"
    by (simp_all add: invar_default) (simp_all add: HashMap_default_def bucket_count_def)
  have s1: "invar s1" "value_store s1 = [(1, ''a'')]" "bucket_count s1 = 2"
    using insert_absent_step [of ?s0 "(1, ''a'')"] s0 by (simp_all add: s1_def size_hm_def)
  have s2: "invar s2" "value_store s2 = [(1, ''a''), (2, ''b'')]" "bucket_count s2 = 4"
    using insert_absent_step [of s1 "(2, ''b'')"] s1 by (simp_all add: s2_def size_hm_def)
  have s3: "invar s3" "value_store s3 = [(1, ''a''), (2, ''b''), (3, ''c'')]" "bucket_count s3 = 8"
    using insert_absent_step [of s2 "(3, ''c'')"] s2 by (simp_all add: s3_def size_hm_def)
  show ?thesis using s0 s1 s2 s3 by simp
qed

section \<open>A container beyond the range of \<^verbatim>\<open>int\<close>\<close>

text \<open>\<open>build n\<close> is reachable, and as long as \<open>3 * n < 2 ^ 33\<close> every rehash of its
  construction is exact: a rehash to at most \<open>2 ^ 32\<close> buckets happens while fewer than
  \<open>2 ^ 31\<close> pairs are stored, whose keys are their positions. So \<open>build n\<close> satisfies the
  invariant, and its bucket count is the power of two between \<open>1.5 * n\<close> and \<open>3 * n\<close>.\<close>

lemma spread_key_inj: "spread_key i = spread_key j \<Longrightarrow> i = j"
  by (auto simp: spread_key_def split: if_splits)

lemma build_Suc: "build (Suc n) = insert_hm (build n) (spread_key n, 0)"
  by (simp add: build_def HashMap_range_def)

lemma hasher_build [simp]: "hasher (build n) = (\<lambda>k. k)"
  by (simp add: build_def HashMap_range_def HashMap_default_def)

lemma pow2_le_32:
  assumes "2 * (2::nat) ^ k < 8589934592"
  shows "2 * (2::nat) ^ k \<le> 4294967296"
proof -
  have "(2::nat) ^ Suc k < 2 ^ 33" using assms by simp
  then have "Suc k < 33" by (simp only: power_strict_increasing_iff)
  then have "Suc k \<le> 32" by simp
  then have "(2::nat) ^ Suc k \<le> 2 ^ 32" by (simp only: power_increasing_iff)
  then show ?thesis by simp
qed

lemma doubling_step: "1 \<le> n \<Longrightarrow> 3 * n < 2 * X \<Longrightarrow> 3 * Suc n < 4 * (X::nat)"
  by arith

lemma build_props:
  assumes "1 \<le> n" "3 * n < 8589934592"
  shows "invar (build n) \<and>
    value_store (build n) = map (\<lambda>i. (spread_key i, 0)) [0 ..< n] \<and>
    (\<exists>k. length (hashed_pointers (build n)) = 2 ^ k \<and> 2 ^ k \<le> 3 * n \<and> 3 * n < 2 * 2 ^ k)"
  using assms
proof (induction n rule: nat_induct_at_least)
  case base
  have d: "invar (HashMap_default (\<lambda>k. k) :: (nat, nat) HashMap)" by (rule invar_default)
  have "build 1 = insert_hm (HashMap_default (\<lambda>k. k)) (0, 0)"
    by (simp add: build_def HashMap_range_def spread_key_def)
  moreover have "invar (insert_hm (HashMap_default (\<lambda>k. k)) (0, 0 :: nat)) \<and>
      value_store (insert_hm (HashMap_default (\<lambda>k. k)) (0, 0 :: nat)) = [(0, 0)] \<and>
      length (hashed_pointers (insert_hm (HashMap_default (\<lambda>k. k)) (0 :: nat, 0 :: nat))) = 2"
    using insert_absent_exact [OF d, of "(0, 0)"] by (simp add: HashMap_default_def)
  ultimately show ?case
    by (auto simp: spread_key_def intro: exI [of _ 1])
next
  case (Suc n)
  then have IH: "invar (build n)"
      "value_store (build n) = map (\<lambda>i. (spread_key i, 0)) [0 ..< n]"
    and "\<exists>k. length (hashed_pointers (build n)) = 2 ^ k \<and> 2 ^ k \<le> 3 * n \<and> 3 * n < 2 * 2 ^ k"
    by simp_all
  then obtain k where k: "length (hashed_pointers (build n)) = 2 ^ k" "2 ^ k \<le> 3 * n"
      "3 * n < 2 * 2 ^ k"
    by blast
  let ?kv = "(spread_key n, 0 :: nat)"
  have len: "length (value_store (build n)) = n" by (simp add: IH(2))
  have absent: "fst ?kv \<notin> fst ` set (value_store (build n))"
    by (auto simp: IH(2) dest: spread_key_inj)
  have vs': "value_store (build n) @ [?kv] = map (\<lambda>i. (spread_key i, 0)) [0 ..< Suc n]"
    by (simp add: IH(2))
  have exact: "\<forall>i < length (value_store (build n)) + 1.
      hasher (build n) (fst ((value_store (build n) @ [?kv]) ! i))
        mod (2 * length (hashed_pointers (build n))) < 2147483648"
    if t: "2 * length (hashed_pointers (build n)) \<le> 3 * (length (value_store (build n)) + 1)"
  proof (intro allI impI)
    fix i assume "i < length (value_store (build n)) + 1"
    then have i: "i < Suc n" by (simp add: len)
    have "2 * (2::nat) ^ k < 8589934592" using t Suc.prems by (simp add: k(1) len)
    then have "2 * (2::nat) ^ k \<le> 4294967296" by (rule pow2_le_32)
    then have small: "i < 2147483648" using k(3) i by simp
    then have "i mod (2 * 2 ^ k) < 2147483648"
      by (rule le_less_trans [OF mod_less_eq_dividend])
    then have "spread_key i mod (2 * 2 ^ k) < 2147483648"
      using small by (simp add: spread_key_def)
    then show "hasher (build n) (fst ((value_store (build n) @ [?kv]) ! i))
        mod (2 * length (hashed_pointers (build n))) < 2147483648"
      unfolding vs' using i by (simp add: k(1) del: upt_Suc)
  qed
  note step = insert_absent_exact [OF IH(1) absent exact]
  have inv: "invar (build (Suc n))" using step by (simp add: build_Suc)
  have vs: "value_store (build (Suc n)) = map (\<lambda>i. (spread_key i, 0)) [0 ..< Suc n]"
    using step vs' by (simp add: build_Suc del: upt_Suc)
  have bc: "length (hashed_pointers (build (Suc n))) =
      (if 2 * 2 ^ k \<le> 3 * (n + 1) then 2 * 2 ^ k else 2 ^ k)"
    using step by (simp add: build_Suc k(1) len)
  have "\<exists>k'. length (hashed_pointers (build (Suc n))) = 2 ^ k' \<and> 2 ^ k' \<le> 3 * Suc n \<and>
      3 * Suc n < 2 * 2 ^ k'"
  proof (cases "2 * (2::nat) ^ k \<le> 3 * (n + 1)")
    case True
    have "3 * Suc n < 4 * 2 ^ k" using Suc.hyps k(3) by (rule doubling_step)
    then have "3 * Suc n < 2 * 2 ^ Suc k" by simp
    then show ?thesis using True bc by (intro exI [of _ "Suc k"]) simp
  next
    case False
    then show ?thesis using bc k(2) by (intro exI [of _ k]) simp
  qed
  then show ?case using inv vs by blast
qed

lemma big_props:
  "invar big \<and> value_store big = map (\<lambda>i. (spread_key i, 0)) [0 ..< 2863311530] \<and>
   length (hashed_pointers big) = 4294967296"
proof -
  obtain k where k: "length (hashed_pointers big) = 2 ^ k" "(2::nat) ^ k \<le> 8589934590"
      "8589934590 < 2 * (2::nat) ^ k"
    using build_props [of 2863311530] by (auto simp: big_def)
  have "(2::nat) ^ k < 2 ^ 33" using k(2) by simp
  then have "k < 33" by (simp only: power_strict_increasing_iff)
  moreover have "(2::nat) ^ 32 < 2 ^ Suc k" using k(3) by simp
  then have "32 < Suc k" by (simp only: power_strict_increasing_iff)
  ultimately have "k = 32" by simp
  then show ?thesis using k(1) build_props [of 2863311530] by (simp add: big_def)
qed

text \<open>Every rehash in the construction of \<open>build n\<close> indexes inside its new array, so
  that the construction of \<open>big\<close> stays within defined behaviour.\<close>

lemma build_0: "build 0 = HashMap_default (\<lambda>k. k)"
  by (simp add: build_def HashMap_range_def)

lemma build_in_range:
  assumes "3 * Suc n < 8589934592" "2 * bucket_count (build n) \<le> 3 * Suc n"
  shows "rehash_in_range (hasher (build n)) (value_store (build n) @ [(spread_key n, 0)])
    (2 * bucket_count (build n))"
proof (cases "n = 0")
  case True
  then show ?thesis
    by (simp add: build_0 HashMap_default_def rehash_in_range_def bucket_count_def
          spread_key_def int_round_trip_exact)
next
  case False
  then have n: "1 \<le> n" "3 * n < 8589934592" using assms(1) by simp_all
  from build_props [OF n] obtain k where
    vs: "value_store (build n) = map (\<lambda>i. (spread_key i, 0)) [0 ..< n]" and
    k: "length (hashed_pointers (build n)) = 2 ^ k" "3 * n < 2 * 2 ^ k"
    by blast
  have vs': "value_store (build n) @ [(spread_key n, 0)] =
      map (\<lambda>i. (spread_key i, 0)) [0 ..< Suc n]"
    by (simp add: vs)
  have "2 * (2::nat) ^ k < 8589934592" using assms by (simp add: bucket_count_def k(1))
  then have le: "2 * (2::nat) ^ k \<le> 4294967296" by (rule pow2_le_32)
  have "size_t_of_int (int_of_size_t (spread_key i mod (2 * 2 ^ k))) < 2 * 2 ^ k"
    if i: "i < Suc n" for i
  proof -
    have small: "i < 2147483648" using k(2) i le by simp
    then have "i mod (2 * 2 ^ k) < 2147483648"
      by (rule le_less_trans [OF mod_less_eq_dividend])
    then have "size_t_of_int (int_of_size_t (i mod (2 * 2 ^ k))) = i mod (2 * 2 ^ k)"
      by (rule int_round_trip_exact)
    then show ?thesis using small by (simp add: spread_key_def)
  qed
  then show ?thesis
    unfolding vs' rehash_in_range_def
    by (simp add: list_all_iff bucket_count_def k(1) del: upt_Suc)
qed

lemma hasher_big [simp]: "hasher big = (\<lambda>k. k)"
  by (simp add: big_def)

lemma reachable_big: "reachable big"
  unfolding big_def build_def by (rule reachable.by_range)

lemma spread_key_round_trip:
  assumes "i < 2863311531"
  shows "size_t_of_int (int_of_size_t (spread_key i mod 8589934592)) =
    (if i < 2147483648 then i else i - 2147483648)"
proof (cases "i < 2147483648")
  case True
  then show ?thesis by (simp add: spread_key_def int_round_trip_exact)
next
  case False
  have lt: "i + 2147483648 < 8589934592" using assms by simp
  have "i + 2147483648 = (i - 2147483648) + 4294967296" using False by simp
  then have "(i + 2147483648) mod 4294967296 = (i - 2147483648) mod 4294967296"
    by (metis mod_add_self2)
  also have "\<dots> = i - 2147483648" using assms by simp
  finally have m: "(i + 2147483648) mod 4294967296 = i - 2147483648" .
  then have "(i + 2147483648) mod 4294967296 < 2147483648" using assms by simp
  then have "size_t_of_int (int_of_size_t (i + 2147483648)) = i - 2147483648"
    using m by (simp add: int_round_trip_low)
  then show ?thesis using False lt by (simp add: spread_key_def)
qed

lemma big_absent: "5010795178 \<notin> fst ` set (value_store big)"
proof -
  have "spread_key 2863311530 \<notin> fst ` set (value_store big)"
    using big_props by (auto dest: spread_key_inj)
  then show ?thesis by (simp add: spread_key_def)
qed

lemma big_insert:
  "value_store (insert_hm big (5010795178, 0)) =
     map (\<lambda>i. (spread_key i, 0)) [0 ..< 2863311531]"
  "hashed_pointers (insert_hm big (5010795178, 0)) =
     rehash_loop (\<lambda>k. k) (map (\<lambda>i. (spread_key i, 0 :: nat)) [0 ..< 2863311531]) 8589934592
       [0 ..< 2863311531] (replicate 8589934592 [])"
  "hasher (insert_hm big (5010795178, 0)) = (\<lambda>k. k)"
proof -
  have inv: "invar big" and vs: "value_store big = map (\<lambda>i. (spread_key i, 0)) [0 ..< 2863311530]"
    and len: "length (hashed_pointers big) = 4294967296"
    using big_props by simp_all
  have h: "hasher big = (\<lambda>k. k)" by (simp add: big_def)
  have "[0 ..< 2863311531] = [0 ..< 2863311530] @ [2863311530]"
    using upt_Suc_append [of 0 2863311530] by simp
  then have vs': "value_store big @ [(5010795178, 0)] =
      map (\<lambda>i. (spread_key i, 0)) [0 ..< 2863311531]"
    by (simp add: vs spread_key_def)
  have f: "find_hm big (fst (5010795178 :: nat, 0 :: nat)) = end_hm big"
    using big_absent inv by (simp add: find_end_absent)
  have eq: "insert_hm big (5010795178, 0) = check_and_reallocate (push big (5010795178, 0))"
    using f by (rule insert_hm_absent)
  show "value_store (insert_hm big (5010795178, 0)) =
     map (\<lambda>i. (spread_key i, 0)) [0 ..< 2863311531]"
    unfolding eq using vs' by simp
  show "hasher (insert_hm big (5010795178, 0)) = (\<lambda>k. k)"
    unfolding eq using h by simp
  have "length (value_store (push big (5010795178, 0))) = 2863311531"
    using vs' by (simp del: upt_Suc)
  then show "hashed_pointers (insert_hm big (5010795178, 0)) =
     rehash_loop (\<lambda>k. k) (map (\<lambda>i. (spread_key i, 0 :: nat)) [0 ..< 2863311531]) 8589934592
       [0 ..< 2863311531] (replicate 8589934592 [])"
    unfolding eq using vs' h len
    by (simp add: check_and_reallocate_def INCREMENT_FACTOR_def REALLOCATION_FACTOR_def Let_def)
qed

lemma big_insert_bucket:
  assumes "b < 8589934592"
  shows "hashed_pointers (insert_hm big (5010795178, 0)) ! b =
    filter (\<lambda>i. (if i < 2147483648 then i else i - 2147483648) = b) [0 ..< 2863311531]"
proof -
  have "hashed_pointers (insert_hm big (5010795178, 0)) ! b =
      filter (\<lambda>i. size_t_of_int (int_of_size_t
          (fst (map (\<lambda>i. (spread_key i, 0 :: nat)) [0 ..< 2863311531] ! i) mod 8589934592)) = b)
        [0 ..< 2863311531]"
    unfolding big_insert(2) using assms by (simp add: rehash_loop_nth)
  also have "\<dots> = filter (\<lambda>i. (if i < 2147483648 then i else i - 2147483648) = b)
      [0 ..< 2863311531]"
    by (rule filter_cong) (simp_all add: spread_key_round_trip)
  finally show ?thesis .
qed

lemma big_insert_empty_bucket: "hashed_pointers (insert_hm big (5010795178, 0)) ! 5010795178 = []"
  unfolding big_insert_bucket [of 5010795178, simplified]
  by (auto simp: filter_empty_conv)

lemma big_insert_buckets:
  "length (hashed_pointers (insert_hm big (5010795178, 0))) = 8589934592"
  by (simp add: big_insert(2) length_rehash_loop)

lemma big_insert_find:
  "find_hm (insert_hm big (5010795178, 0)) 5010795178 = 2863311531"
proof -
  let ?s = "insert_hm big (5010795178, 0)"
  have "hasher ?s 5010795178 mod length (hashed_pointers ?s) = 5010795178"
    by (simp add: big_insert(3) big_insert_buckets)
  then have "find_loop (value_store ?s) 5010795178
      (hashed_pointers ?s ! (hasher ?s 5010795178 mod length (hashed_pointers ?s))) = None"
    by (simp add: big_insert_empty_bucket)
  then have "find_hm ?s 5010795178 = length (value_store ?s)"
    unfolding find_hm_def Let_def by simp
  then show ?thesis by (simp add: big_insert(1))
qed

lemma big_push_store:
  "value_store big @ [(5010795178, 0)] = map (\<lambda>i. (spread_key i, 0)) [0 ..< 2863311531]"
proof -
  have "[0 ..< 2863311531] = [0 ..< 2863311530] @ [2863311530]"
    using upt_Suc_append [of 0 2863311530] by simp
  then show ?thesis using big_props by (simp add: spread_key_def)
qed

lemma big_in_range:
  "rehash_in_range (hasher big) (value_store big @ [(5010795178, 0)]) (2 * bucket_count big)"
proof -
  have "size_t_of_int (int_of_size_t
      (fst (map (\<lambda>i. (spread_key i, 0 :: nat)) [0 ..< 2863311531] ! i) mod 8589934592))
      < 8589934592" if i: "i < 2863311531" for i
  proof -
    have "(if i < 2147483648 then i else i - 2147483648) < (8589934592 :: nat)"
      using i by (cases "i < 2147483648") simp_all
    then show ?thesis using i by (simp only: nth_map nth_upt length_upt fst_conv
        spread_key_round_trip add_0 diff_zero)
  qed
  then show ?thesis
    unfolding big_push_store rehash_in_range_def using big_props
    by (simp add: list_all_iff bucket_count_def)
qed

section \<open>The claims\<close>

text \<open>
  The claims about one operation are proved from the representation invariant \<open>invar\<close>
  alone. Every reachable state with at most \<open>2 ^ 31\<close> buckets satisfies it
  (\<open>reachable_invar\<close>). A key is present when a pair of \<^verbatim>\<open>value_store_\<close> has it.

  Three claims fail on the code for one reason: \<^verbatim>\<open>check_and_reallocate\<close> keeps the bucket
  number in an \<^verbatim>\<open>int\<close>, where \<^verbatim>\<open>find\<close>, \<^verbatim>\<open>insert\<close> and \<^verbatim>\<open>erase\<close> keep it in a \<^verbatim>\<open>size_t\<close>.
  The container \<open>big\<close> shows it: it holds 2863311530 pairs in \<open>2 ^ 32\<close> buckets and satisfies
  the invariant (\<open>big_props\<close>). Inserting the absent key 5010795178 rehashes it to
  \<open>2 ^ 33\<close> buckets. Every index of that rehash is inside the new array (\<open>big_in_range\<close>),
  but the positions from \<open>2 ^ 31\<close> on, whose keys are \<open>2 ^ 32\<close> and more, are filed under their
  keys modulo \<open>2 ^ 32\<close>, and every bucket from \<open>2 ^ 31\<close> on is left empty.
\<close>

text \<open>
  Claim C1 (bucket-index invariant) fails on the code. The state after the insert into
  \<open>big\<close> is reachable, and the rehash of that insert stays inside the new array. Its last
  position 2863311530 is live and holds key 5010795178, whose bucket under the 8589934592
  buckets is 5010795178; that bucket does not hold the position, bucket 715827882 does.
  Up to \<open>2 ^ 31\<close> buckets the claim holds: \<open>bucket_index_bounded\<close>.
\<close>

theorem bucket_index_invariant_broken:
  "reachable (insert_hm big (5010795178, 0)) \<and>
   rehash_in_range (hasher big) (value_store big @ [(5010795178, 0)]) (2 * bucket_count big) \<and>
   size_hm (insert_hm big (5010795178, 0)) = 2863311531 \<and>
   bucket_count (insert_hm big (5010795178, 0)) = 8589934592 \<and>
   value_store (insert_hm big (5010795178, 0)) ! 2863311530 = (5010795178, 0) \<and>
   hasher (insert_hm big (5010795178, 0)) 5010795178
     mod bucket_count (insert_hm big (5010795178, 0)) = 5010795178 \<and>
   count_list (hashed_pointers (insert_hm big (5010795178, 0)) ! 5010795178) 2863311530 = 0 \<and>
   2863311530 \<in> set (hashed_pointers (insert_hm big (5010795178, 0)) ! 715827882)"
proof -
  let ?s = "insert_hm big (5010795178, 0)"
  have "run 0 (Insert (5010795178, 0)) big = (Inr Void, ?s)" by simp
  with reachable_big have "reachable ?s" by (rule reachable.by_call)
  moreover have "value_store ?s ! 2863311530 = (5010795178, 0)"
    by (simp add: big_insert(1) spread_key_def)
  moreover have "2863311530 \<in> set (hashed_pointers ?s ! 715827882)"
    by (simp add: big_insert_bucket)
  ultimately show ?thesis
    using big_in_range
    by (simp add: size_hm_def bucket_count_def big_insert(1,3) big_insert_buckets
          big_insert_empty_bucket)
qed



text \<open>
  Claim C3 (load-factor bound), as the code has it. In every reachable state
  \<open>3 * size < 2 * bucket_count\<close>; it holds after every \<open>insert\<close>, also one made by
  \<^verbatim>\<open>operator[]\<close> or a constructor, and an \<open>insert\<close> changes the bucket count only by
  one doubling, exactly when the key was absent and \<open>3 * (size + 1) \<ge> 2 * bucket_count\<close>.
  No member function other than \<open>insert\<close> and \<^verbatim>\<open>operator[]\<close> (through its \<open>insert\<close>) and
  \<open>clear\<close> changes the bucket count, and no member function other than \<open>clear\<close> lowers
  it; \<open>clear\<close> resets it to 1.
\<close>

theorem load_factor_bound:
  assumes "reachable s"
  shows "3 * size_hm s < 2 * bucket_count s \<and>
    3 * size_hm (insert_hm s kv) < 2 * bucket_count (insert_hm s kv) \<and>
    bucket_count (insert_hm s kv) =
      (if find_hm s (fst kv) = end_hm s \<and> 2 * bucket_count s \<le> 3 * (size_hm s + 1)
       then 2 * bucket_count s else bucket_count s) \<and>
    3 * size_hm (snd (subscript s init k)) < 2 * bucket_count (snd (subscript s init k)) \<and>
    3 * size_hm (HashMap_range elems h) < 2 * bucket_count (HashMap_range elems h) \<and>
    3 * size_hm (HashMap_init_list elems h) < 2 * bucket_count (HashMap_init_list elems h) \<and>
    (c \<noteq> Clear \<longrightarrow> bucket_count s \<le> bucket_count (snd (run init c s))) \<and>
    ((\<forall>kv. c \<noteq> Insert kv) \<and> (\<forall>k. c \<noteq> Subscript k) \<and> c \<noteq> Clear \<longrightarrow>
       bucket_count (snd (run init c s)) = bucket_count s) \<and>
    bucket_count (clear s) = 1"
proof -
  have l: "load_ok s" using assms by (rule reachable_load_ok)
  have "load_ok (insert_hm s kv)" using l by (rule load_ok_insert_hm)
  moreover have "load_ok (snd (subscript s init k))"
    using l by (simp add: snd_subscript load_ok_insert_hm)
  moreover have "load_ok (HashMap_range elems h)" "load_ok (HashMap_init_list elems h)"
    by (simp_all add: reachable_load_ok reachable.by_range reachable.by_init_list)
  ultimately show ?thesis
    using l bucket_count_run_mono [of c s init] bucket_count_run_same [of c init s]
    by (simp add: load_ok_def bucket_count_insert_hm bucket_count_clear)
qed

theorem load_factor_bound_witness:
  "reachable five \<and> bucket_count five = 8 \<and>
   bucket_count (insert_hm five (14, ''f'')) = 16 \<and>
   3 * size_hm (insert_hm five (14, ''f'')) < 2 * bucket_count (insert_hm five (14, ''f''))"
proof -
  have "find_hm five 14 = end_hm five" by code_simp
  moreover have "bucket_count five = 8" by code_simp
  moreover have "size_hm five = 5" by code_simp
  ultimately show ?thesis
    using load_factor_bound [OF reachable_five, where kv = "(14, ''f'')" and init = "[]"
        and k = 14 and c = Clear and elems = "[] :: (nat \<times> string) list"
        and h = "\<lambda>k :: nat. k"] reachable_five
    by simp
qed

theorem load_factor_bound_counterexample:
  "reachable abc \<and> reachable (clear abc) \<and> bucket_count abc = 8 \<and> bucket_count (clear abc) = 1 \<and>
   bucket_count (clear abc) < bucket_count abc"
proof -
  have r: "reachable abc" unfolding abc_def by (rule reachable.by_init_list)
  have "run [] Clear abc = (Inr Void, clear abc)" by simp
  with r have "reachable (clear abc)" by (rule reachable.by_call)
  moreover have "bucket_count abc = 8" by (simp add: bucket_count_def abc_buckets)
  ultimately show ?thesis using r by (simp add: bucket_count_clear)
qed

text \<open>
  Claim C4 (rehash scenario), as the code has it. Starting from the empty container with
  one bucket, inserting \<open>(1, ''a'')\<close>, \<open>(2, ''b'')\<close>, \<open>(3, ''c'')\<close> in that order makes the
  bucket count 2 after the first insert, 4 after the second and 8 after the third, for
  every hash function; the final size is 3.
\<close>

theorem rehash_scenario:
  fixes h :: "nat \<Rightarrow> nat"
  shows "bucket_count (HashMap_default h :: (nat, string) HashMap) = 1 \<and>
    bucket_count (insert_hm (HashMap_default h) (1, ''a'')) = 2 \<and>
    bucket_count (insert_hm (insert_hm (HashMap_default h) (1, ''a'')) (2, ''b'')) = 4 \<and>
    bucket_count
      (insert_hm (insert_hm (insert_hm (HashMap_default h) (1, ''a'')) (2, ''b'')) (3, ''c'')) = 8 \<and>
    size_hm
      (insert_hm (insert_hm (insert_hm (HashMap_default h) (1, ''a'')) (2, ''b'')) (3, ''c'')) = 3"
  using three_inserts [of h] by (simp add: size_hm_def)

theorem rehash_scenario_counterexample:
  "bucket_count (insert_hm (insert_hm (HashMap_default (\<lambda>k. k)) (1, ''a'')) (2, ''b'')) \<noteq> 2 \<and>
   bucket_count
     (insert_hm (insert_hm (insert_hm (HashMap_default (\<lambda>k. k)) (1, ''a'')) (2, ''b''))
        (3, ''c'')) \<noteq> 4"
  using three_inserts [of "\<lambda>k. k"] by simp

text \<open>
  Claim C5 (round trip) fails on the code. The key 5010795178 is not stored in \<open>big\<close>;
  after \<open>insert (5010795178, 0)\<close> the pair is the last of the store, and \<open>find\<close> of the
  key returns \<open>end\<close>. Where the doubled bucket count is at most \<open>2 ^ 31\<close> the claim holds:
  \<open>insert_find_roundtrip_bounded\<close>.
\<close>

theorem insert_find_roundtrip_broken:
  "reachable big \<and> 5010795178 \<notin> fst ` set (value_store big) \<and>
   find_hm big 5010795178 = end_hm big \<and>
   value_store (insert_hm big (5010795178, 0)) ! 2863311530 = (5010795178, 0) \<and>
   end_hm (insert_hm big (5010795178, 0)) = 2863311531 \<and>
   find_hm (insert_hm big (5010795178, 0)) 5010795178 = end_hm (insert_hm big (5010795178, 0))"
proof -
  have "find_hm big 5010795178 = end_hm big"
    using big_absent big_props by (simp add: find_end_absent)
  moreover have "value_store (insert_hm big (5010795178, 0)) ! 2863311530 = (5010795178, 0)"
    by (simp add: big_insert(1) spread_key_def)
  ultimately show ?thesis
    using reachable_big big_absent big_insert_find by (simp add: end_hm_def big_insert(1))
qed







text \<open>
  Claim C9 (\<^verbatim>\<open>operator[]\<close> on an absent key) fails on the code. On \<open>big\<close> and the absent
  key 5010795178, \<^verbatim>\<open>operator[]\<close> leaves the state of the insert, with 2863311531 pairs,
  the new one at position 2863311530; its second \<open>find\<close> returns \<open>end\<close>, so the reference
  returned is to position 2863311531, past the last pair. Where the doubled bucket count
  is at most \<open>2 ^ 31\<close> the claim holds: \<open>subscript_absent_bounded\<close>.
\<close>

theorem subscript_absent_broken:
  "reachable big \<and> 5010795178 \<notin> fst ` set (value_store big) \<and>
   snd (subscript big 0 5010795178) = insert_hm big (5010795178, 0) \<and>
   size_hm (snd (subscript big 0 5010795178)) = 2863311531 \<and>
   value_store (snd (subscript big 0 5010795178)) ! 2863311530 = (5010795178, 0) \<and>
   fst (subscript big 0 5010795178) = 2863311531"
proof -
  have "find_hm big 5010795178 = end_hm big"
    using big_absent big_props by (simp add: find_end_absent)
  then have "subscript big 0 5010795178 =
      (find_hm (insert_hm big (5010795178, 0)) 5010795178, insert_hm big (5010795178, 0))"
    by (simp add: subscript_def Let_def)
  moreover have "value_store (insert_hm big (5010795178, 0)) ! 2863311530 = (5010795178, 0)"
    by (simp add: big_insert(1) spread_key_def)
  ultimately show ?thesis
    using reachable_big big_absent big_insert_find by (simp add: size_hm_def big_insert(1))
qed



end
